theory Spec2Isabelle
  imports Complex_Main "HOL-Library.Word"
begin

section \<open>git2txt: the file-processing pipeline (\<open>processFiles\<close>)\<close>

text \<open>
  The development embeds \<open>processFiles\<close> and its nested \<open>processDirectory\<close> of the
  command-line tool. A JavaScript string is a sequence of UTF-16 code units; the file
  system below the processed directory is a tree of directory entries, each carrying what
  the calls \<open>fs.stat\<close>, \<open>isBinaryFile\<close>, \<open>fs.readFile\<close> and \<open>fs.readdir\<close> answer for it
  (\<open>None\<close> where the call throws).
\<close>

subsection \<open>Strings\<close>

type_synonym jsstring = "16 word list"

definition lit :: "string \<Rightarrow> jsstring" where
  "lit s = map of_char s"

definition nl :: jsstring where
  "nl = [10]"

text \<open>
  \<open>String.prototype.slice(0, e)\<close> for a finite number \<open>e\<close>: the end index is truncated
  towards zero, a negative end counts from the end of the string, and both are clamped to
  the string.
\<close>

definition slice0 :: "jsstring \<Rightarrow> rat \<Rightarrow> jsstring" where
  "slice0 s e =
     (let k = (if e < 0 then - \<lfloor>- e\<rfloor> else \<lfloor>e\<rfloor>);
          len = int (length s);
          final = (if k < 0 then max (len + k) 0 else min k len)
      in take (nat final) s)"

subsection \<open>The directory tree and the options\<close>

text \<open>
  \<open>File name stat probe content\<close>: an entry for which \<open>isFile()\<close> holds, with the size
  \<open>fs.stat\<close> reports in bytes, the answer of \<open>isBinaryFile\<close> and the decoded text
  \<open>fs.readFile(_, 'utf8')\<close> returns. \<open>Directory name listing\<close>: an entry for which
  \<open>isDirectory()\<close> holds, with the result of \<open>fs.readdir\<close> on it. \<open>Other name\<close>: an entry
  that is neither (a symbolic link, a socket, ...).
\<close>

datatype entry =
    File jsstring "nat option" "bool option" "jsstring option"
  | Directory jsstring "entry list option"
  | Other jsstring

record options =
  threshold :: rat
  includeAll :: bool
  ignorePatterns :: "jsstring list option"
  truncate_opt :: bool
  maxFiles :: int

text \<open>
  The imported library functions are parameters of the model: \<open>formatFileSize\<close> (package
  filesize), \<open>minimatch\<close> (package minimatch), the conversion of a number inside a template
  literal, and the separator \<open>path.join\<close> puts between path segments.
\<close>

record env =
  formatFileSize :: "nat \<Rightarrow> jsstring"
  minimatch :: "jsstring \<Rightarrow> jsstring \<Rightarrow> bool"
  numberToString :: "rat \<Rightarrow> jsstring"
  sep :: jsstring

datatype error = DirectoryListFailure jsstring

text \<open>
  What one \<open>output +=\<close> site appends: a per-file fragment (path, size, final content), the
  one-time cutoff marker (path, size), or a directory marker (path).
\<close>

datatype event =
    Fragment jsstring nat jsstring
  | CutoffMarker jsstring nat
  | DirMarker jsstring

text \<open>
  The branch a file entry takes in the first loop of \<open>processDirectory\<close>; the skip
  branches are the ones the source logs as large, binary and ignored, and the
  \<open>catch\<close> block.
\<close>

datatype classification =
    skip_large
  | skip_binary
  | skip_ignored
  | skip_unreadable
  | omitted
  | include_truncated
  | include_full

text \<open>
  The mutable variables of \<open>processFiles\<close>. The field \<open>emitted\<close> is a ghost: it records,
  in order, which \<open>output +=\<close> sites have run.
\<close>

record state =
  output_text :: jsstring
  processedFiles :: nat
  skippedFiles :: nat
  omittedFiles :: nat
  emitted :: "event list"

definition init_state :: state where
  "init_state = \<lparr>output_text = [], processedFiles = 0, skippedFiles = 0, omittedFiles = 0,
                 emitted = []\<rparr>"

subsection \<open>The pieces of text\<close>

definition thresholdBytes :: "options \<Rightarrow> rat" where
  "thresholdBytes opts = threshold opts * 1024 * 1024"

definition relativePath :: "env \<Rightarrow> jsstring \<Rightarrow> jsstring \<Rightarrow> jsstring" where
  "relativePath e dir name = (if dir = [] then name else dir @ sep e @ name)"

definition ignored :: "env \<Rightarrow> options \<Rightarrow> jsstring \<Rightarrow> bool" where
  "ignored e opts rel =
     (case ignorePatterns opts of
        None \<Rightarrow> False
      | Some ps \<Rightarrow> list_ex (\<lambda>pattern. minimatch e rel pattern) ps)"

definition file_header :: "env \<Rightarrow> jsstring \<Rightarrow> nat \<Rightarrow> jsstring" where
  "file_header e rel sz =
     nl @ lit ''**** File: '' @ rel @ lit '', size: '' @ formatFileSize e sz @ nl"

definition cutoff_text :: "env \<Rightarrow> jsstring \<Rightarrow> nat \<Rightarrow> jsstring" where
  "cutoff_text e rel sz =
     file_header e rel sz
     @ lit ''This file and all following files were omitted due to max-files limit.'' @ nl"

definition truncation_marker :: "env \<Rightarrow> options \<Rightarrow> jsstring" where
  "truncation_marker e opts =
     nl @ nl @ lit ''[Truncated: File size exceeds '' @ numberToString e (threshold opts)
     @ lit '' MB]'' @ nl"

definition fragment_text :: "env \<Rightarrow> jsstring \<Rightarrow> nat \<Rightarrow> jsstring \<Rightarrow> jsstring" where
  "fragment_text e rel sz content = file_header e rel sz @ nl @ content @ nl"

definition directory_text :: "jsstring \<Rightarrow> jsstring" where
  "directory_text rel = nl @ lit ''**** Directory: '' @ rel"

definition summary_text :: "env \<Rightarrow> nat \<Rightarrow> jsstring" where
  "summary_text e n =
     nl @ nl @ lit ''Total '' @ numberToString e (of_nat n)
     @ lit '' files were omitted due to the maxFiles limit'' @ nl"

fun render :: "env \<Rightarrow> event \<Rightarrow> jsstring" where
  "render e (Fragment rel sz content) = fragment_text e rel sz content"
| "render e (CutoffMarker rel sz) = cutoff_text e rel sz"
| "render e (DirMarker rel) = directory_text rel"

subsection \<open>One file entry: the body of the first loop\<close>

definition skip :: "state \<Rightarrow> state" where
  "skip s = s\<lparr>skippedFiles := skippedFiles s + 1\<rparr>"

definition emit :: "env \<Rightarrow> event \<Rightarrow> state \<Rightarrow> state" where
  "emit e ev s = s\<lparr>output_text := output_text s @ render e ev, emitted := emitted s @ [ev]\<rparr>"

definition processFile ::
  "env \<Rightarrow> options \<Rightarrow> jsstring \<Rightarrow> nat option \<Rightarrow> bool option \<Rightarrow> jsstring option \<Rightarrow> state
     \<Rightarrow> classification \<times> state" where
  "processFile e opts rel stat probe content s =
     (case stat of
        None \<Rightarrow> (skip_unreadable, skip s)
      | Some sz \<Rightarrow>
          if \<not> includeAll opts \<and> of_nat sz > thresholdBytes opts \<and> \<not> truncate_opt opts
          then (skip_large, skip s)
          else if \<not> includeAll opts \<and> probe = None then (skip_unreadable, skip s)
          else if \<not> includeAll opts \<and> probe = Some True then (skip_binary, skip s)
          else if ignored e opts rel then (skip_ignored, skip s)
          else
            (case content of
               None \<Rightarrow> (skip_unreadable, skip s)
             | Some text \<Rightarrow>
                 if maxFiles opts \<noteq> 0 \<and> int (processedFiles s) \<ge> maxFiles opts
                 then
                   (omitted,
                    (if omittedFiles s + 1 = 1 then emit e (CutoffMarker rel sz) else id)
                      (s\<lparr>omittedFiles := omittedFiles s + 1\<rparr>))
                 else if truncate_opt opts \<and> of_nat sz > thresholdBytes opts
                 then
                   (include_truncated,
                    (emit e
                       (Fragment rel sz
                          (slice0 text (thresholdBytes opts) @ truncation_marker e opts)) s)
                      \<lparr>processedFiles := processedFiles s + 1\<rparr>)
                 else
                   (include_full,
                    (emit e (Fragment rel sz text) s)
                      \<lparr>processedFiles := processedFiles s + 1\<rparr>)))"

fun file_loop :: "env \<Rightarrow> options \<Rightarrow> jsstring \<Rightarrow> entry list \<Rightarrow> state \<Rightarrow> state" where
  "file_loop e opts dir [] s = s"
| "file_loop e opts dir (File name stat probe content # entries) s =
     file_loop e opts dir entries
       (snd (processFile e opts (relativePath e dir name) stat probe content s))"
| "file_loop e opts dir (Directory name listing # entries) s = file_loop e opts dir entries s"
| "file_loop e opts dir (Other name # entries) s = file_loop e opts dir entries s"

subsection \<open>The recursive walk\<close>

fun processDirectory ::
  "env \<Rightarrow> options \<Rightarrow> jsstring \<Rightarrow> entry list option \<Rightarrow> state \<Rightarrow> error + state"
and dir_loop ::
  "env \<Rightarrow> options \<Rightarrow> jsstring \<Rightarrow> entry list \<Rightarrow> state \<Rightarrow> error + state" where
  "processDirectory e opts dir None s = Inl (DirectoryListFailure dir)"
| "processDirectory e opts dir (Some entries) s =
     dir_loop e opts dir entries (file_loop e opts dir entries s)"
| "dir_loop e opts dir [] s = Inr s"
| "dir_loop e opts dir (Directory name listing # entries) s =
     (if ignored e opts (relativePath e dir name) then dir_loop e opts dir entries s
      else
        (case processDirectory e opts (relativePath e dir name) listing
                (emit e (DirMarker (relativePath e dir name)) s) of
           Inl err \<Rightarrow> Inl err
         | Inr s' \<Rightarrow> dir_loop e opts dir entries s'))"
| "dir_loop e opts dir (File name stat probe content # entries) s = dir_loop e opts dir entries s"
| "dir_loop e opts dir (Other name # entries) s = dir_loop e opts dir entries s"

definition processFiles :: "env \<Rightarrow> options \<Rightarrow> entry list option \<Rightarrow> error + state" where
  "processFiles e opts tree =
     (case processDirectory e opts [] tree init_state of
        Inl err \<Rightarrow> Inl err
      | Inr s \<Rightarrow>
          Inr (if omittedFiles s > 0
               then s\<lparr>output_text := output_text s @ summary_text e (omittedFiles s)\<rparr>
               else s))"

subsection \<open>The traversal, flattened\<close>

text \<open>
  What a run visits, in order: in each listed directory first its file entries in listing
  order, then, for each of its directory entries that no ignore pattern matches, the
  directory itself followed by what is visited inside it. Whether every directory reached
  can be listed is the separate predicate \<open>listable\<close>.
\<close>

datatype visit =
    VFile jsstring "nat option" "bool option" "jsstring option"
  | VDir jsstring

fun is_file_visit :: "visit \<Rightarrow> bool" where
  "is_file_visit (VFile rel stat probe content) = True"
| "is_file_visit (VDir rel) = False"

fun files_in :: "env \<Rightarrow> jsstring \<Rightarrow> entry list \<Rightarrow> visit list" where
  "files_in e dir [] = []"
| "files_in e dir (File name stat probe content # entries) =
     VFile (relativePath e dir name) stat probe content # files_in e dir entries"
| "files_in e dir (Directory name listing # entries) = files_in e dir entries"
| "files_in e dir (Other name # entries) = files_in e dir entries"

fun visits :: "env \<Rightarrow> options \<Rightarrow> jsstring \<Rightarrow> entry list option \<Rightarrow> visit list"
and visits_dirs :: "env \<Rightarrow> options \<Rightarrow> jsstring \<Rightarrow> entry list \<Rightarrow> visit list" where
  "visits e opts dir None = []"
| "visits e opts dir (Some entries) = files_in e dir entries @ visits_dirs e opts dir entries"
| "visits_dirs e opts dir [] = []"
| "visits_dirs e opts dir (Directory name listing # entries) =
     (if ignored e opts (relativePath e dir name) then []
      else VDir (relativePath e dir name) # visits e opts (relativePath e dir name) listing)
     @ visits_dirs e opts dir entries"
| "visits_dirs e opts dir (File name stat probe content # entries) =
     visits_dirs e opts dir entries"
| "visits_dirs e opts dir (Other name # entries) = visits_dirs e opts dir entries"

text \<open>Every directory the walk reaches can be listed.\<close>

fun listable :: "env \<Rightarrow> options \<Rightarrow> jsstring \<Rightarrow> entry list option \<Rightarrow> bool"
and listable_dirs :: "env \<Rightarrow> options \<Rightarrow> jsstring \<Rightarrow> entry list \<Rightarrow> bool" where
  "listable e opts dir None = False"
| "listable e opts dir (Some entries) = listable_dirs e opts dir entries"
| "listable_dirs e opts dir [] = True"
| "listable_dirs e opts dir (Directory name listing # entries) =
     (if ignored e opts (relativePath e dir name) then listable_dirs e opts dir entries
      else if listable e opts (relativePath e dir name) listing
      then listable_dirs e opts dir entries
      else False)"
| "listable_dirs e opts dir (File name stat probe content # entries) =
     listable_dirs e opts dir entries"
| "listable_dirs e opts dir (Other name # entries) = listable_dirs e opts dir entries"

text \<open>The effect of one visit on the variables of \<open>processFiles\<close>.\<close>

fun step :: "env \<Rightarrow> options \<Rightarrow> visit \<Rightarrow> state \<Rightarrow> state" where
  "step e opts (VFile rel stat probe content) s =
     snd (processFile e opts rel stat probe content s)"
| "step e opts (VDir rel) s = emit e (DirMarker rel) s"

text \<open>
  The content a file is rendered with, and the files that pass every skip rule and can be
  read (path, size, final content): these are the files that are either processed or
  omitted.
\<close>

definition final_content :: "env \<Rightarrow> options \<Rightarrow> nat \<Rightarrow> jsstring \<Rightarrow> jsstring" where
  "final_content e opts sz text =
     (if truncate_opt opts \<and> of_nat sz > thresholdBytes opts
      then slice0 text (thresholdBytes opts) @ truncation_marker e opts
      else text)"

fun candidate :: "env \<Rightarrow> options \<Rightarrow> visit \<Rightarrow> (jsstring \<times> nat \<times> jsstring) option" where
  "candidate e opts (VDir rel) = None"
| "candidate e opts (VFile rel None probe content) = None"
| "candidate e opts (VFile rel (Some sz) probe None) = None"
| "candidate e opts (VFile rel (Some sz) probe (Some text)) =
     (if (includeAll opts
            \<or> (\<not> (of_nat sz > thresholdBytes opts \<and> \<not> truncate_opt opts) \<and> probe = Some False))
          \<and> \<not> ignored e opts rel
      then Some (rel, sz, final_content e opts sz text)
      else None)"

definition eligible_files ::
  "env \<Rightarrow> options \<Rightarrow> visit list \<Rightarrow> (jsstring \<times> nat \<times> jsstring) list" where
  "eligible_files e opts vs = List.map_filter (candidate e opts) vs"

definition limit_reached :: "options \<Rightarrow> state \<Rightarrow> bool" where
  "limit_reached opts s = (maxFiles opts \<noteq> 0 \<and> int (processedFiles s) \<ge> maxFiles opts)"

definition counted :: "state \<Rightarrow> nat" where
  "counted s = processedFiles s + skippedFiles s + omittedFiles s"

subsection \<open>Reading the emitted events\<close>

text \<open>
  The per-file fragments, the cutoff markers and the directory markers among the emitted
  events; how many eligible files a state still lets through (\<open>allowed\<close>) and which it
  turns away (\<open>refused\<close>), by \<open>maxFiles\<close> and the files processed so far.
\<close>

fun fragment_of :: "event \<Rightarrow> (jsstring \<times> nat \<times> jsstring) option" where
  "fragment_of (Fragment rel sz content) = Some (rel, sz, content)"
| "fragment_of (CutoffMarker rel sz) = None"
| "fragment_of (DirMarker rel) = None"


fun directory_of :: "event \<Rightarrow> jsstring option" where
  "directory_of (Fragment rel sz content) = None"
| "directory_of (CutoffMarker rel sz) = None"
| "directory_of (DirMarker rel) = Some rel"

fun visited_directory :: "visit \<Rightarrow> jsstring option" where
  "visited_directory (VFile rel stat probe content) = None"
| "visited_directory (VDir rel) = Some rel"

definition fragments :: "event list \<Rightarrow> (jsstring \<times> nat \<times> jsstring) list" where
  "fragments evs = List.map_filter fragment_of evs"


definition directory_markers :: "event list \<Rightarrow> jsstring list" where
  "directory_markers evs = List.map_filter directory_of evs"

definition allowed :: "options \<Rightarrow> state \<Rightarrow> 'a list \<Rightarrow> 'a list" where
  "allowed opts s xs =
     (if maxFiles opts = 0 then xs else take (nat (maxFiles opts - int (processedFiles s))) xs)"

definition refused :: "options \<Rightarrow> state \<Rightarrow> 'a list \<Rightarrow> 'a list" where
  "refused opts s xs =
     (if maxFiles opts = 0 then [] else drop (nat (maxFiles opts - int (processedFiles s))) xs)"

fun path_and_size :: "jsstring \<times> nat \<times> jsstring \<Rightarrow> jsstring \<times> nat" where
  "path_and_size (rel, sz, content) = (rel, sz)"

text \<open>
  The events one visit appends in a given state, and those a sequence of visits appends,
  each visit acting on the state its predecessors leave.
\<close>

fun emits :: "env \<Rightarrow> options \<Rightarrow> visit \<Rightarrow> state \<Rightarrow> event list" where
  "emits e opts (VDir rel) s = [DirMarker rel]"
| "emits e opts (VFile rel stat probe content) s =
     (case candidate e opts (VFile rel stat probe content) of
        None \<Rightarrow> []
      | Some (r, sz, c) \<Rightarrow>
          if limit_reached opts s
          then (if omittedFiles s = 0 then [CutoffMarker r sz] else [])
          else [Fragment r sz c])"

fun trace :: "env \<Rightarrow> options \<Rightarrow> visit list \<Rightarrow> state \<Rightarrow> event list" where
  "trace e opts [] s = []"
| "trace e opts (v # vs) s = emits e opts v s @ trace e opts vs (step e opts v s)"

text \<open>The entries each of the two loops of \<open>processDirectory\<close> acts on.\<close>

fun is_file_entry :: "entry \<Rightarrow> bool" where
  "is_file_entry (File name stat probe content) = True"
| "is_file_entry (Directory name listing) = False"
| "is_file_entry (Other name) = False"

fun kept_directory :: "env \<Rightarrow> options \<Rightarrow> jsstring \<Rightarrow> entry \<Rightarrow> bool" where
  "kept_directory e opts dir (File name stat probe content) = False"
| "kept_directory e opts dir (Directory name listing) = (\<not> ignored e opts (relativePath e dir name))"
| "kept_directory e opts dir (Other name) = False"

subsection \<open>Reading the aggregated text back\<close>

text \<open>
  A reader of the aggregated text by its markers, written from the specification (the
  repository has none): the text is split into lines; a line that starts with the file
  marker and is followed by an empty line is the header of a fragment; its path and its
  size text are what stands before and after the last comma. \<open>clean_event\<close> says that an
  emitted event cannot be mistaken: no line break in its path or its size text, no comma in
  the size text, and no line of the content starting with the file marker.
  \<open>body_lines\<close> are the lines an event contributes.
\<close>

definition file_marker :: jsstring where
  "file_marker = lit ''**** File: ''"

definition size_label :: jsstring where
  "size_label = lit '' size: ''"

definition comma :: "16 word" where
  "comma = 44"

fun split_lines :: "jsstring \<Rightarrow> jsstring list" where
  "split_lines [] = [[]]"
| "split_lines (c # cs) =
     (if c = 10 then [] # split_lines cs
      else (case split_lines cs of [] \<Rightarrow> [[c]] | l # ls \<Rightarrow> (c # l) # ls))"

definition is_header :: "jsstring \<Rightarrow> bool" where
  "is_header line = (take (length file_marker) line = file_marker)"

definition parse_fields :: "jsstring \<Rightarrow> jsstring \<times> jsstring" where
  "parse_fields line =
     (let rest = rev (drop (length file_marker) line);
          back = takeWhile (\<lambda>c. c \<noteq> comma) rest
      in (rev (drop (length back + 1) rest), drop (length size_label) (rev back)))"

fun parse_lines :: "jsstring list \<Rightarrow> (jsstring \<times> jsstring) list" where
  "parse_lines (l1 # l2 # ls) =
     (if is_header l1 \<and> l2 = [] then parse_fields l1 # parse_lines ls
      else parse_lines (l2 # ls))"
| "parse_lines [l] = []"
| "parse_lines [] = []"

definition parse_aggregate :: "jsstring \<Rightarrow> (jsstring \<times> jsstring) list" where
  "parse_aggregate s = parse_lines (split_lines s)"

fun clean_event :: "env \<Rightarrow> event \<Rightarrow> bool" where
  "clean_event e (Fragment rel sz content) =
     (10 \<notin> set rel \<and> 10 \<notin> set (formatFileSize e sz) \<and> comma \<notin> set (formatFileSize e sz)
      \<and> list_all (\<lambda>line. \<not> is_header line) (split_lines content))"
| "clean_event e (CutoffMarker rel sz) = (10 \<notin> set rel \<and> 10 \<notin> set (formatFileSize e sz))"
| "clean_event e (DirMarker rel) = (10 \<notin> set rel)"

fun rendered_pair :: "env \<Rightarrow> jsstring \<times> nat \<times> jsstring \<Rightarrow> jsstring \<times> jsstring" where
  "rendered_pair e (rel, sz, content) = (rel, formatFileSize e sz)"

definition header_line :: "env \<Rightarrow> jsstring \<Rightarrow> nat \<Rightarrow> jsstring" where
  "header_line e rel sz = file_marker @ rel @ [comma] @ size_label @ formatFileSize e sz"

definition omission_line :: jsstring where
  "omission_line = lit ''This file and all following files were omitted due to max-files limit.''"

fun body_lines :: "env \<Rightarrow> event \<Rightarrow> jsstring list" where
  "body_lines e (Fragment rel sz content) =
     [header_line e rel sz, []] @ split_lines content @ [[]]"
| "body_lines e (CutoffMarker rel sz) = [header_line e rel sz, omission_line, []]"
| "body_lines e (DirMarker rel) = [lit ''**** Directory: '' @ rel]"

definition aggregated :: "error + state \<Rightarrow> jsstring option" where
  "aggregated r = (case r of Inl err \<Rightarrow> None | Inr st \<Rightarrow> Some (output_text st))"

definition rendered_pairs :: "error + state \<Rightarrow> (jsstring \<times> nat) list option" where
  "rendered_pairs r =
     (case r of Inl err \<Rightarrow> None | Inr st \<Rightarrow> Some (map path_and_size (fragments (emitted st))))"

subsection \<open>Concrete inputs\<close>

text \<open>
  An instance of the library parameters for evaluating runs at the concrete inputs below.
  It follows the libraries on these inputs and is used on no other:
  \<^item> \<open>formatFileSize\<close>: a size below 1000 bytes is its decimal digits followed by \<open>B\<close>, as
    filesize prints it (\<open>5 B\<close>);
  \<^item> \<open>minimatch\<close>: path and pattern are split at \<open>/\<close> and matched segment by segment as
    minimatch does for patterns whose segments are literal text or \<open>**\<close>: a literal segment
    matches itself; \<open>**\<close> as the last segment takes all remaining segments, of which there
    must be at least one and none starting with a dot; \<open>**\<close> elsewhere takes zero or more
    such segments; a pattern with segments left when the path has ended does not match, so
    \<open>sub/**\<close> matches \<open>sub/c.txt\<close> and not \<open>sub\<close>;
  \<^item> \<open>numberToString\<close>: a non-negative number with an ending decimal expansion of at most
    fifteen significant digits converts to that expansion (\<open>2\<close>,
    \<open>0.00000286102294921875\<close>), as a template literal prints it;
  \<^item> the separator is the POSIX one.
\<close>

fun decimal :: "nat \<Rightarrow> jsstring" where
  "decimal n =
     (if n < 10 then [of_nat (48 + n)] else decimal (n div 10) @ [of_nat (48 + n mod 10)])"

fun fraction_digits :: "nat \<Rightarrow> rat \<Rightarrow> jsstring" where
  "fraction_digits 0 r = []"
| "fraction_digits (Suc k) r =
     (if r = 0 then []
      else of_nat (48 + nat \<lfloor>r * 10\<rfloor>) # fraction_digits k (r * 10 - of_int \<lfloor>r * 10\<rfloor>))"

definition decimal_expansion :: "rat \<Rightarrow> jsstring" where
  "decimal_expansion r =
     decimal (nat \<lfloor>r\<rfloor>)
     @ (if r = of_int \<lfloor>r\<rfloor> then [] else [46] @ fraction_digits 40 (r - of_int \<lfloor>r\<rfloor>))"

fun segments :: "jsstring \<Rightarrow> jsstring list" where
  "segments [] = [[]]"
| "segments (c # cs) =
     (if c = 47 then [] # segments cs
      else (case segments cs of [] \<Rightarrow> [[c]] | l # ls \<Rightarrow> (c # l) # ls))"

definition visible :: "jsstring \<Rightarrow> bool" where
  "visible segment = (case segment of [] \<Rightarrow> True | c # cs \<Rightarrow> c \<noteq> 46)"

fun match_segments :: "jsstring list \<Rightarrow> jsstring list \<Rightarrow> bool" where
  "match_segments [] [] = True"
| "match_segments (f # fs) [] = False"
| "match_segments [] (p # ps) = False"
| "match_segments (f # fs) (p # ps) =
     (if p = lit ''**''
      then (if ps = [] then list_all visible (f # fs)
            else if match_segments (f # fs) ps then True
            else if visible f then match_segments fs (p # ps)
            else False)
      else if f = p then match_segments fs ps
      else False)"

definition glob_match :: "jsstring \<Rightarrow> jsstring \<Rightarrow> bool" where
  "glob_match path pattern = match_segments (segments path) (segments pattern)"

definition sample_env :: env where
  "sample_env =
     \<lparr>formatFileSize = (\<lambda>n. decimal n @ lit '' B''),
      minimatch = glob_match,
      numberToString = decimal_expansion,
      sep = lit ''/''\<rparr>"

text \<open>
  A tree with a text file, a binary file, an entry that is neither file nor directory, an
  unlistable directory that is ignored, a directory with two text files and a nested
  directory holding a file that cannot be read, and a text file listed last.
\<close>

definition demo_entries :: "entry list" where
  "demo_entries =
          [File (lit ''a.txt'') (Some 5) (Some False) (Some (lit ''hello'')),
           File (lit ''b.bin'') (Some 4) (Some True) (Some [0, 1, 2, 3]),
           Other (lit ''link''),
           Directory (lit ''node_modules'') None,
           Directory (lit ''sub'')
             (Some [File (lit ''c.txt'') (Some 5) (Some False) (Some (lit ''world'')),
                    File (lit ''d.txt'') (Some 3) (Some False) (Some (lit ''abc'')),
                    Directory (lit ''deep'')
                      (Some [File (lit ''e.txt'') None None None])]),
           File (lit ''z.txt'') (Some 2) (Some False) (Some (lit ''zz''))]"

definition demo_tree :: "entry list option" where
  "demo_tree = Some demo_entries"

definition demo_options :: options where
  "demo_options =
     \<lparr>threshold = 1, includeAll = False,
      ignorePatterns = Some [[], lit ''node_modules'', lit ''.git''],
      truncate_opt = False, maxFiles = 2\<rparr>"

definition demo_result :: state where
  "demo_result =
     \<lparr>output_text =
        lit ''\<newline>**** File: a.txt, size: 5 B\<newline>\<newline>hello\<newline>''
        @ lit ''\<newline>**** File: z.txt, size: 2 B\<newline>\<newline>zz\<newline>''
        @ lit ''\<newline>**** Directory: sub''
        @ lit ''\<newline>**** File: sub/c.txt, size: 5 B\<newline>''
        @ lit ''This file and all following files were omitted due to max-files limit.\<newline>''
        @ lit ''\<newline>**** Directory: sub/deep''
        @ lit ''\<newline>\<newline>Total 2 files were omitted due to the maxFiles limit\<newline>'',
      processedFiles = 2, skippedFiles = 2, omittedFiles = 2,
      emitted =
        [Fragment (lit ''a.txt'') 5 (lit ''hello''),
         Fragment (lit ''z.txt'') 2 (lit ''zz''),
         DirMarker (lit ''sub''),
         CutoffMarker (lit ''sub/c.txt'') 5,
         DirMarker (lit ''sub/deep'')]\<rparr>"

text \<open>
  The tree of the specification's scenarios, as the entries before the directory \<open>sub\<close> and
  the listing of \<open>sub\<close>, with options that ignore \<open>sub\<close>; and a tree with a directory
  that cannot be listed.
\<close>

definition scenario_before :: "entry list" where
  "scenario_before =
     [File (lit ''a.txt'') (Some 5) (Some False) (Some (lit ''hello'')),
      File (lit ''b.bin'') (Some 4) (Some True) (Some [0, 1, 2, 3])]"

definition scenario_sub :: "entry list option" where
  "scenario_sub = Some [File (lit ''c.txt'') (Some 5) (Some False) (Some (lit ''world''))]"

definition scenario_options :: options where
  "scenario_options =
     \<lparr>threshold = 1, includeAll = False, ignorePatterns = Some [lit ''sub''],
      truncate_opt = False, maxFiles = 0\<rparr>"

definition scenario_result :: state where
  "scenario_result =
     \<lparr>output_text = lit ''\<newline>**** File: a.txt, size: 5 B\<newline>\<newline>hello\<newline>'',
      processedFiles = 1, skippedFiles = 1, omittedFiles = 0,
      emitted = [Fragment (lit ''a.txt'') 5 (lit ''hello'')]\<rparr>"

text \<open>The same tree under the pattern \<open>sub/**\<close>, and what the run returns for it.\<close>

definition globstar_options :: options where
  "globstar_options =
     \<lparr>threshold = 1, includeAll = False, ignorePatterns = Some [lit ''sub/**''],
      truncate_opt = False, maxFiles = 0\<rparr>"

definition globstar_result :: state where
  "globstar_result =
     \<lparr>output_text =
        lit ''\<newline>**** File: a.txt, size: 5 B\<newline>\<newline>hello\<newline>''
        @ lit ''\<newline>**** Directory: sub'',
      processedFiles = 1, skippedFiles = 2, omittedFiles = 0,
      emitted = [Fragment (lit ''a.txt'') 5 (lit ''hello''), DirMarker (lit ''sub'')]\<rparr>"

definition broken_tree :: "entry list option" where
  "broken_tree =
     Some [File (lit ''a.txt'') (Some 5) (Some False) (Some (lit ''hello'')),
           Directory (lit ''locked'') None,
           Directory (lit ''sub'')
             (Some [File (lit ''c.txt'') (Some 5) (Some False) (Some (lit ''world''))])]"

text \<open>Options with a threshold of three bytes, without and with truncation.\<close>

definition strict_options :: options where
  "strict_options =
     \<lparr>threshold = 3 / 1048576, includeAll = False,
      ignorePatterns = Some [[], lit ''node_modules'', lit ''.git''],
      truncate_opt = False, maxFiles = 0\<rparr>"

definition truncating_options :: options where
  "truncating_options =
     \<lparr>threshold = 3 / 1048576, includeAll = False,
      ignorePatterns = Some [[], lit ''node_modules'', lit ''.git''],
      truncate_opt = True, maxFiles = 0\<rparr>"

text \<open>
  A file whose name holds line breaks and marker text, two files that render to the same
  text, and a file whose content quotes a fragment header.
\<close>

definition long_name_entries :: "entry list" where
  "long_name_entries =
     [File (lit ''a, size: 1 B\<newline>\<newline>x\<newline>\<newline>**** File: b'') (Some 1) (Some False)
        (Some (lit ''y''))]"

definition two_file_entries :: "entry list" where
  "two_file_entries =
     [File (lit ''a'') (Some 1) (Some False) (Some (lit ''x'')),
      File (lit ''b'') (Some 1) (Some False) (Some (lit ''y''))]"

definition quoting_entries :: "entry list" where
  "quoting_entries =
     [File (lit ''a.txt'') (Some 32) (Some False)
        (Some (lit ''x\<newline>**** File: b.txt, size: 1 B\<newline>\<newline>y''))]"

section \<open>Properties\<close>

subsection \<open>The walk is a fold over the visits\<close>

declare decimal.simps [simp del]

lemma file_loop_fold:
  "file_loop e opts dir entries s = fold (step e opts) (files_in e dir entries) s"
  by (induction e opts dir entries s rule: file_loop.induct) simp_all

lemma walk_flat:
  "listable e opts dir listing \<Longrightarrow>
     processDirectory e opts dir listing s
       = Inr (fold (step e opts) (visits e opts dir listing) s)"
  "listable_dirs e opts dir entries \<Longrightarrow>
     dir_loop e opts dir entries s
       = Inr (fold (step e opts) (visits_dirs e opts dir entries) s)"
  by (induction e opts dir listing s and e opts dir entries s
        rule: processDirectory_dir_loop.induct)
     (auto simp: file_loop_fold split: if_splits)

lemma walk_fails:
  "\<not> listable e opts dir listing \<Longrightarrow> \<exists>err. processDirectory e opts dir listing s = Inl err"
  "\<not> listable_dirs e opts dir entries \<Longrightarrow> \<exists>err. dir_loop e opts dir entries s = Inl err"
  by (induction e opts dir listing s and e opts dir entries s
        rule: processDirectory_dir_loop.induct)
     (auto split: sum.splits if_splits)

lemma processFiles_Inr:
  assumes "processFiles e opts tree = Inr st"
  shows "listable e opts [] tree"
    and "processedFiles st
           = processedFiles (fold (step e opts) (visits e opts [] tree) init_state)"
    and "skippedFiles st
           = skippedFiles (fold (step e opts) (visits e opts [] tree) init_state)"
    and "omittedFiles st
           = omittedFiles (fold (step e opts) (visits e opts [] tree) init_state)"
    and "emitted st = emitted (fold (step e opts) (visits e opts [] tree) init_state)"
    and "output_text st =
           output_text (fold (step e opts) (visits e opts [] tree) init_state)
           @ (if omittedFiles st > 0 then summary_text e (omittedFiles st) else [])"
proof -
  let ?s = "fold (step e opts) (visits e opts [] tree) init_state"
  show l: "listable e opts [] tree"
  proof (rule ccontr)
    assume "\<not> listable e opts [] tree"
    then obtain err where "processDirectory e opts [] tree init_state = Inl err"
      using walk_fails(1) by blast
    with assms show False by (simp add: processFiles_def)
  qed
  from walk_flat(1)[OF l, of init_state] assms
  have st: "st = (if omittedFiles ?s > 0
                  then ?s\<lparr>output_text := output_text ?s @ summary_text e (omittedFiles ?s)\<rparr>
                  else ?s)"
    by (simp add: processFiles_def)
  show "processedFiles st = processedFiles ?s" by (simp add: st)
  show "skippedFiles st = skippedFiles ?s" by (simp add: st)
  show "omittedFiles st = omittedFiles ?s" by (simp add: st)
  show "emitted st = emitted ?s" by (simp add: st)
  show "output_text st
          = output_text ?s @ (if omittedFiles st > 0 then summary_text e (omittedFiles st) else [])"
    by (simp add: st)
qed

lemma step_not_candidate:
  "candidate e opts (VFile rel stat probe content) = None \<Longrightarrow>
     snd (processFile e opts rel stat probe content s) = skip s"
  by (cases stat; cases content; cases probe)
     (auto simp: processFile_def split: if_splits)

lemma step_candidate:
  "candidate e opts (VFile rel stat probe content) = Some (r, sz, c) \<Longrightarrow>
     snd (processFile e opts rel stat probe content s) =
       (if limit_reached opts s
        then (if omittedFiles s = 0 then emit e (CutoffMarker r sz) else id)
               (s\<lparr>omittedFiles := omittedFiles s + 1\<rparr>)
        else (emit e (Fragment r sz c) s)\<lparr>processedFiles := processedFiles s + 1\<rparr>)"
  by (cases stat; cases content; cases probe)
     (auto simp: processFile_def limit_reached_def final_content_def split: if_splits)

lemma demo_run: "processFiles sample_env demo_options demo_tree = Inr demo_result"
  by code_simp

subsection \<open>What a fold over the visits emits\<close>

lemma eligible_files_Nil [simp]: "eligible_files e opts [] = []"
  by (simp add: eligible_files_def map_filter_simps)

lemma eligible_files_Cons:
  "eligible_files e opts (v # vs) =
     (case candidate e opts v of None \<Rightarrow> eligible_files e opts vs
      | Some x \<Rightarrow> x # eligible_files e opts vs)"
  by (simp add: eligible_files_def map_filter_simps split: option.split)

lemma step_cases [case_names skipped directory taken first_omitted later_omitted]:
  obtains
    "candidate e opts v = None" "is_file_visit v" "step e opts v s = skip s"
  | rel where "v = VDir rel" "step e opts v s = emit e (DirMarker rel) s"
  | r sz c where "candidate e opts v = Some (r, sz, c)" "\<not> limit_reached opts s"
      "step e opts v s = (emit e (Fragment r sz c) s)\<lparr>processedFiles := processedFiles s + 1\<rparr>"
  | r sz c where "candidate e opts v = Some (r, sz, c)" "limit_reached opts s"
      "omittedFiles s = 0"
      "step e opts v s = emit e (CutoffMarker r sz) (s\<lparr>omittedFiles := 1\<rparr>)"
  | r sz c where "candidate e opts v = Some (r, sz, c)" "limit_reached opts s"
      "omittedFiles s > 0"
      "step e opts v s = s\<lparr>omittedFiles := omittedFiles s + 1\<rparr>"
proof (cases v)
  case (VDir rel)
  then show ?thesis using that(2) by simp
next
  case (VFile rel stat probe content)
  show ?thesis
  proof (cases "candidate e opts v")
    case None
    then show ?thesis using that(1) VFile by (simp add: step_not_candidate)
  next
    case (Some t)
    obtain r sz c where t: "t = (r, sz, c)" by (cases t)
    have st: "step e opts v s =
       (if limit_reached opts s
        then (if omittedFiles s = 0 then emit e (CutoffMarker r sz) else id)
               (s\<lparr>omittedFiles := omittedFiles s + 1\<rparr>)
        else (emit e (Fragment r sz c) s)\<lparr>processedFiles := processedFiles s + 1\<rparr>)"
      using Some t VFile by (simp add: step_candidate)
    show ?thesis
    proof (cases "limit_reached opts s")
      case False
      then show ?thesis using that(3)[of r sz c] Some t st by simp
    next
      case True
      show ?thesis
      proof (cases "omittedFiles s = 0")
        case True
        then show ?thesis using that(4)[of r sz c] Some t st \<open>limit_reached opts s\<close> by simp
      next
        case False
        then show ?thesis using that(5)[of r sz c] Some t st \<open>limit_reached opts s\<close> by simp
      qed
    qed
  qed
qed

lemma room_Suc:
  assumes "\<not> limit_reached opts s" "maxFiles opts \<noteq> 0"
    and "processedFiles s1 = processedFiles s + 1"
  shows "nat (maxFiles opts - int (processedFiles s))
           = Suc (nat (maxFiles opts - int (processedFiles s1)))"
  using assms by (auto simp: limit_reached_def)

lemma room_zero:
  assumes "limit_reached opts s"
  shows "maxFiles opts \<noteq> 0" "nat (maxFiles opts - int (processedFiles s)) = 0"
  using assms by (simp_all add: limit_reached_def)

lemma allowed_taken:
  assumes "\<not> limit_reached opts s" "processedFiles s1 = processedFiles s + 1"
  shows "allowed opts s (x # xs) = x # allowed opts s1 xs"
proof (cases "maxFiles opts = 0")
  case True
  then show ?thesis by (simp add: allowed_def)
next
  case False
  from room_Suc[OF assms(1) False assms(2)] False show ?thesis
    by (simp add: allowed_def)
qed

lemma refused_taken:
  assumes "\<not> limit_reached opts s" "processedFiles s1 = processedFiles s + 1"
  shows "refused opts s (x # xs) = refused opts s1 xs"
proof (cases "maxFiles opts = 0")
  case True
  then show ?thesis by (simp add: refused_def)
next
  case False
  from room_Suc[OF assms(1) False assms(2)] False show ?thesis
    by (simp add: refused_def)
qed

lemma allowed_full:
  assumes "limit_reached opts s"
  shows "allowed opts s xs = []"
  using room_zero[OF assms] by (simp add: allowed_def)

lemma refused_full:
  assumes "limit_reached opts s"
  shows "refused opts s xs = xs"
  using room_zero[OF assms] by (simp add: refused_def)

lemma processed_unchanged:
  "processedFiles (skip s) = processedFiles s"
  "processedFiles (emit e ev s) = processedFiles s"
  by (simp_all add: skip_def emit_def)

lemma omitted_unchanged:
  "omittedFiles (skip s) = omittedFiles s"
  "omittedFiles (emit e ev s) = omittedFiles s"
  by (simp_all add: skip_def emit_def)

lemma allowed_same:
  "allowed opts (skip s) xs = allowed opts s xs"
  "allowed opts (emit e ev s) xs = allowed opts s xs"
  "allowed opts (s\<lparr>omittedFiles := n\<rparr>) xs = allowed opts s xs"
  by (simp_all add: allowed_def skip_def emit_def)

lemma refused_same:
  "refused opts (skip s) xs = refused opts s xs"
  "refused opts (emit e ev s) xs = refused opts s xs"
  "refused opts (s\<lparr>omittedFiles := n\<rparr>) xs = refused opts s xs"
  by (simp_all add: refused_def skip_def emit_def)

lemma limit_reached_same:
  "limit_reached opts (skip s) = limit_reached opts s"
  "limit_reached opts (emit e ev s) = limit_reached opts s"
  "limit_reached opts (s\<lparr>omittedFiles := n\<rparr>) = limit_reached opts s"
  by (simp_all add: limit_reached_def skip_def emit_def)

lemma fold_processed:
  "processedFiles (fold (step e opts) vs s)
     = processedFiles s + length (allowed opts s (eligible_files e opts vs))"
proof (induction vs arbitrary: s)
  case Nil
  show ?case by (simp add: allowed_def)
next
  case (Cons v vs)
  show ?case
  proof (cases rule: step_cases[of e opts v s])
    case skipped
    then show ?thesis
      by (simp add: Cons.IH eligible_files_Cons allowed_same processed_unchanged)
  next
    case (directory rel)
    then show ?thesis
      by (simp add: Cons.IH eligible_files_Cons allowed_same processed_unchanged)
  next
    case (taken r sz c)
    have p: "processedFiles (step e opts v s) = processedFiles s + 1"
      by (simp add: taken(3) emit_def)
    show ?thesis
      using allowed_taken[OF taken(2) p, of "(r, sz, c)" "eligible_files e opts vs"]
      by (simp add: Cons.IH eligible_files_Cons taken(1) p)
  next
    case (first_omitted r sz c)
    have "limit_reached opts (step e opts v s)"
      using first_omitted(2) by (simp add: first_omitted(4) limit_reached_same)
    then show ?thesis using first_omitted(2)
      by (simp add: Cons.IH allowed_full) (simp add: first_omitted(4) processed_unchanged)
  next
    case (later_omitted r sz c)
    have "limit_reached opts (step e opts v s)"
      using later_omitted(2) by (simp add: later_omitted(4) limit_reached_same)
    then show ?thesis using later_omitted(2)
      by (simp add: Cons.IH allowed_full) (simp add: later_omitted(4))
  qed
qed

lemma fold_omitted:
  "omittedFiles (fold (step e opts) vs s)
     = omittedFiles s + length (refused opts s (eligible_files e opts vs))"
proof (induction vs arbitrary: s)
  case Nil
  show ?case by (simp add: refused_def)
next
  case (Cons v vs)
  show ?case
  proof (cases rule: step_cases[of e opts v s])
    case skipped
    then show ?thesis
      by (simp add: Cons.IH eligible_files_Cons refused_same omitted_unchanged)
  next
    case (directory rel)
    then show ?thesis
      by (simp add: Cons.IH eligible_files_Cons refused_same omitted_unchanged)
  next
    case (taken r sz c)
    have p: "processedFiles (step e opts v s) = processedFiles s + 1"
      by (simp add: taken(3) emit_def)
    have o: "omittedFiles (step e opts v s) = omittedFiles s"
      by (simp add: taken(3) emit_def)
    show ?thesis
      using refused_taken[OF taken(2) p, of "(r, sz, c)" "eligible_files e opts vs"]
      by (simp add: Cons.IH eligible_files_Cons taken(1) o)
  next
    case (first_omitted r sz c)
    have "limit_reached opts (step e opts v s)"
      using first_omitted(2) by (simp add: first_omitted(4) limit_reached_same)
    then show ?thesis using first_omitted(1,2,3)
      by (simp add: Cons.IH refused_full eligible_files_Cons)
         (simp add: first_omitted(4) omitted_unchanged)
  next
    case (later_omitted r sz c)
    have "limit_reached opts (step e opts v s)"
      using later_omitted(2) by (simp add: later_omitted(4) limit_reached_same)
    then show ?thesis using later_omitted(1,2)
      by (simp add: Cons.IH refused_full eligible_files_Cons)
         (simp add: later_omitted(4))
  qed
qed


lemma emitted_step:
  "emitted (skip s) = emitted s"
  "emitted (emit e ev s) = emitted s @ [ev]"
  by (simp_all add: skip_def emit_def)

lemma fragments_snoc:
  "fragments (evs @ [ev]) = fragments evs @ (case fragment_of ev of None \<Rightarrow> [] | Some x \<Rightarrow> [x])"
  by (simp add: fragments_def map_filter_def split: option.split)


lemma directory_markers_snoc:
  "directory_markers (evs @ [ev])
     = directory_markers evs @ (case directory_of ev of None \<Rightarrow> [] | Some x \<Rightarrow> [x])"
  by (simp add: directory_markers_def map_filter_def split: option.split)

lemma fold_fragments:
  "fragments (emitted (fold (step e opts) vs s))
     = fragments (emitted s) @ allowed opts s (eligible_files e opts vs)"
proof (induction vs arbitrary: s)
  case Nil
  show ?case by (simp add: allowed_def)
next
  case (Cons v vs)
  show ?case
  proof (cases rule: step_cases[of e opts v s])
    case skipped
    then show ?thesis
      by (simp add: Cons.IH eligible_files_Cons allowed_same emitted_step)
  next
    case (directory rel)
    then show ?thesis
      by (simp add: Cons.IH eligible_files_Cons allowed_same emitted_step fragments_snoc)
  next
    case (taken r sz c)
    have p: "processedFiles (step e opts v s) = processedFiles s + 1"
      by (simp add: taken(3) emit_def)
    have f: "fragments (emitted (step e opts v s)) = fragments (emitted s) @ [(r, sz, c)]"
      by (simp add: taken(3) emitted_step fragments_snoc)
    show ?thesis
      using allowed_taken[OF taken(2) p, of "(r, sz, c)" "eligible_files e opts vs"]
      by (simp add: Cons.IH eligible_files_Cons taken(1) f)
  next
    case (first_omitted r sz c)
    have l: "limit_reached opts (step e opts v s)"
      using first_omitted(2) by (simp add: first_omitted(4) limit_reached_same)
    have f: "fragments (emitted (step e opts v s)) = fragments (emitted s)"
      by (simp add: first_omitted(4) emitted_step fragments_snoc)
    show ?thesis using first_omitted(2) l
      by (simp add: Cons.IH allowed_full f)
  next
    case (later_omitted r sz c)
    have l: "limit_reached opts (step e opts v s)"
      using later_omitted(2) by (simp add: later_omitted(4) limit_reached_same)
    have f: "fragments (emitted (step e opts v s)) = fragments (emitted s)"
      by (simp add: later_omitted(4))
    show ?thesis using later_omitted(2) l
      by (simp add: Cons.IH allowed_full f)
  qed
qed


lemma fold_directory_markers:
  "directory_markers (emitted (fold (step e opts) vs s))
     = directory_markers (emitted s) @ List.map_filter visited_directory vs"
proof (induction vs arbitrary: s)
  case Nil
  show ?case by (simp add: map_filter_simps)
next
  case (Cons v vs)
  show ?case
  proof (cases rule: step_cases[of e opts v s])
    case skipped
    then have "visited_directory v = None" by (cases v) simp_all
    with skipped show ?thesis
      by (simp add: Cons.IH emitted_step map_filter_simps)
  next
    case (directory rel)
    then show ?thesis
      by (simp add: Cons.IH emitted_step directory_markers_snoc map_filter_simps)
  next
    case (taken r sz c)
    then have "visited_directory v = None" by (cases v) simp_all
    with taken show ?thesis
      by (simp add: Cons.IH emitted_step directory_markers_snoc map_filter_simps)
  next
    case (first_omitted r sz c)
    then have "visited_directory v = None" by (cases v) simp_all
    with first_omitted show ?thesis
      by (simp add: Cons.IH emitted_step directory_markers_snoc map_filter_simps)
  next
    case (later_omitted r sz c)
    then have "visited_directory v = None" by (cases v) simp_all
    with later_omitted show ?thesis
      by (simp add: Cons.IH map_filter_simps)
  qed
qed

lemma step_output:
  "output_text s = concat (map (render e) (emitted s)) \<Longrightarrow>
     output_text (step e opts v s) = concat (map (render e) (emitted (step e opts v s)))"
  by (cases rule: step_cases[of e opts v s]) (simp_all add: emit_def skip_def)

lemma fold_output:
  "output_text s = concat (map (render e) (emitted s)) \<Longrightarrow>
     output_text (fold (step e opts) vs s)
       = concat (map (render e) (emitted (fold (step e opts) vs s)))"
  by (induction vs arbitrary: s) (simp_all add: step_output del: step.simps)

subsection \<open>Counters\<close>

lemma step_counted:
  "counted (step e opts v s) = counted s + (if is_file_visit v then 1 else 0)"
proof (cases v)
  case (VFile rel stat probe content)
  show ?thesis
  proof (cases "candidate e opts (VFile rel stat probe content)")
    case None
    then show ?thesis using VFile by (simp add: step_not_candidate counted_def skip_def)
  next
    case (Some t)
    obtain r sz c where "t = (r, sz, c)" by (cases t)
    with Some show ?thesis using VFile
      by (simp add: step_candidate counted_def emit_def)
  qed
next
  case (VDir rel)
  then show ?thesis by (simp add: counted_def emit_def)
qed

lemma fold_counted:
  "counted (fold (step e opts) vs s) = counted s + length (filter is_file_visit vs)"
  by (induction vs arbitrary: s) (simp_all add: step_counted)

text \<open>
  C1. When a run returns, the three counters add up to the number of file entries visited
  during the traversal; directories (and entries that are neither file nor directory) are
  in none of the counters.
\<close>

theorem counters_cover_visited_files:
  assumes "processFiles e opts tree = Inr st"
  shows "processedFiles st + skippedFiles st + omittedFiles st
           = length (filter is_file_visit (visits e opts [] tree))"
proof -
  have "counted init_state = 0"
    by (simp add: counted_def init_state_def)
  then have "counted (fold (step e opts) (visits e opts [] tree) init_state)
          = length (filter is_file_visit (visits e opts [] tree))"
    by (simp add: fold_counted)
  then show ?thesis
    using processFiles_Inr(2,3,4)[OF assms] by (simp add: counted_def)
qed

theorem counters_cover_visited_files_witness:
  "processFiles sample_env demo_options demo_tree = Inr demo_result
   \<and> processedFiles demo_result + skippedFiles demo_result + omittedFiles demo_result = 6
   \<and> length (filter is_file_visit (visits sample_env demo_options [] demo_tree)) = 6"
proof -
  have run: "processFiles sample_env demo_options demo_tree = Inr demo_result"
    by (rule demo_run)
  have "processedFiles demo_result + skippedFiles demo_result + omittedFiles demo_result = 6"
    by (simp add: demo_result_def)
  with run counters_cover_visited_files[OF run] show ?thesis by simp
qed

subsection \<open>The cutoff and the markers\<close>

lemma run_output:
  assumes "processFiles e opts tree = Inr st"
  shows "output_text st
           = concat (map (render e) (emitted st))
             @ (if omittedFiles st > 0 then summary_text e (omittedFiles st) else [])"
proof -
  have "output_text init_state = concat (map (render e) (emitted init_state))"
    by (simp add: init_state_def)
  from fold_output[OF this, of opts "visits e opts [] tree"]
  show ?thesis using processFiles_Inr(5,6)[OF assms] by simp
qed

text \<open>
  C2. In a run with \<open>maxFiles = N > 0\<close> that returns, the per-file fragments are exactly
  the first \<open>N\<close> eligible files in traversal order, so at most \<open>N\<close> of them; the omitted
  count is the number of eligible files minus \<open>N\<close> (zero when there are no more than \<open>N\<close>);
  the traversal goes on past the cutoff: every visited file is in one of the counters and
  every visited directory has its marker; and the text is the rendered events followed by
  the summary line when the omitted count is not zero.
\<close>

theorem max_files_cutoff:
  assumes "maxFiles opts > 0" and "processFiles e opts tree = Inr st"
  shows "fragments (emitted st)
           = take (nat (maxFiles opts)) (eligible_files e opts (visits e opts [] tree))
         \<and> length (fragments (emitted st)) \<le> nat (maxFiles opts)
         \<and> processedFiles st = length (fragments (emitted st))
         \<and> omittedFiles st
             = length (eligible_files e opts (visits e opts [] tree)) - nat (maxFiles opts)
         \<and> processedFiles st + skippedFiles st + omittedFiles st
             = length (filter is_file_visit (visits e opts [] tree))
         \<and> directory_markers (emitted st)
             = List.map_filter visited_directory (visits e opts [] tree)
         \<and> output_text st
             = concat (map (render e) (emitted st))
               @ (if omittedFiles st > 0 then summary_text e (omittedFiles st) else [])"
proof -
  let ?vs = "visits e opts [] tree"
  let ?E = "eligible_files e opts ?vs"
  let ?s = "fold (step e opts) ?vs init_state"
  have a: "allowed opts init_state ?E = take (nat (maxFiles opts)) ?E"
    using assms(1) by (simp add: allowed_def init_state_def)
  have r: "refused opts init_state ?E = drop (nat (maxFiles opts)) ?E"
    using assms(1) by (simp add: refused_def init_state_def)
  have f: "fragments (emitted st) = take (nat (maxFiles opts)) ?E"
    using fold_fragments[of e opts ?vs init_state] processFiles_Inr(5)[OF assms(2)] a
    by (simp add: init_state_def fragments_def map_filter_simps)
  have p: "processedFiles st = length (take (nat (maxFiles opts)) ?E)"
    using fold_processed[of e opts ?vs init_state] processFiles_Inr(2)[OF assms(2)] a
    by (simp add: init_state_def)
  have om: "omittedFiles st = length ?E - nat (maxFiles opts)"
    using fold_omitted[of e opts ?vs init_state] processFiles_Inr(4)[OF assms(2)] r
    by (simp add: init_state_def)
  have "counted init_state = 0"
    by (simp add: counted_def init_state_def)
  then have "counted ?s = length (filter is_file_visit ?vs)"
    by (simp add: fold_counted)
  then have c: "processedFiles st + skippedFiles st + omittedFiles st
                  = length (filter is_file_visit ?vs)"
    using processFiles_Inr(2,3,4)[OF assms(2)] by (simp add: counted_def)
  have d: "directory_markers (emitted st) = List.map_filter visited_directory ?vs"
    using fold_directory_markers[of e opts ?vs init_state] processFiles_Inr(5)[OF assms(2)]
    by (simp add: init_state_def directory_markers_def map_filter_simps)
  show ?thesis
    using f p om c d run_output[OF assms(2)] by simp
qed


theorem max_files_cutoff_witness:
  "maxFiles demo_options > 0
   \<and> processFiles sample_env demo_options demo_tree = Inr demo_result
   \<and> fragments (emitted demo_result)
       = take (nat (maxFiles demo_options))
           (eligible_files sample_env demo_options (visits sample_env demo_options [] demo_tree))
   \<and> length (fragments (emitted demo_result)) = 2
   \<and> length (eligible_files sample_env demo_options (visits sample_env demo_options [] demo_tree))
       = 4
   \<and> omittedFiles demo_result = 2"
proof -
  have h: "maxFiles demo_options > 0"
    by (simp add: demo_options_def)
  have n: "length (eligible_files sample_env demo_options
                     (visits sample_env demo_options [] demo_tree)) = 4"
    by code_simp
  have m: "nat (maxFiles demo_options) = 2"
    by (simp add: demo_options_def)
  show ?thesis
    using h demo_run n m max_files_cutoff[OF h demo_run] by simp
qed




lemma directory_markers_set:
  "d \<in> set (directory_markers evs) \<longleftrightarrow> DirMarker d \<in> set evs"
proof (induction evs)
  case Nil
  show ?case by (simp add: directory_markers_def map_filter_simps)
next
  case (Cons ev evs)
  then show ?case
    by (cases ev) (auto simp: directory_markers_def map_filter_simps)
qed

lemma rendered_inside:
  assumes "ev \<in> set evs"
  shows "\<exists>before after. concat (map (render e) evs) @ tail = before @ render e ev @ after"
proof -
  from assms obtain xs ys where "evs = xs @ ev # ys"
    by (auto simp: in_set_conv_decomp)
  then have "concat (map (render e) evs) @ tail
               = concat (map (render e) xs) @ render e ev @ (concat (map (render e) ys) @ tail)"
    by simp
  then show ?thesis by blast
qed

text \<open>
  C10. In a run that returns, the directory markers emitted are exactly the directories
  visited (those no ignore pattern matches), in order, whether or not a file inside is
  processed, and the text contains the line \<open>**** Directory: <relativePath>\<close> of each.
\<close>

theorem directory_markers_emitted:
  assumes "processFiles e opts tree = Inr st"
  shows "directory_markers (emitted st)
           = List.map_filter visited_directory (visits e opts [] tree)
         \<and> (\<forall>d \<in> set (List.map_filter visited_directory (visits e opts [] tree)).
               \<exists>before after.
                 output_text st = before @ nl @ lit ''**** Directory: '' @ d @ after)"
proof -
  let ?vs = "visits e opts [] tree"
  have d: "directory_markers (emitted st) = List.map_filter visited_directory ?vs"
    using fold_directory_markers[of e opts ?vs init_state] processFiles_Inr(5)[OF assms]
    by (simp add: init_state_def directory_markers_def map_filter_simps)
  have "\<exists>before after. output_text st = before @ nl @ lit ''**** Directory: '' @ d @ after"
    if "d \<in> set (List.map_filter visited_directory ?vs)" for d
  proof -
    from that d have "d \<in> set (directory_markers (emitted st))"
      by simp
    then have "DirMarker d \<in> set (emitted st)"
      by (simp only: directory_markers_set)
    from rendered_inside[OF this, of e
        "if omittedFiles st > 0 then summary_text e (omittedFiles st) else []"]
    show ?thesis
      unfolding run_output[OF assms] by (simp add: directory_text_def)
  qed
  with d show ?thesis by blast
qed

theorem directory_markers_emitted_witness:
  "processFiles sample_env demo_options demo_tree = Inr demo_result
   \<and> List.map_filter visited_directory (visits sample_env demo_options [] demo_tree)
       = [lit ''sub'', lit ''sub/deep'']
   \<and> directory_markers (emitted demo_result) = [lit ''sub'', lit ''sub/deep'']
   \<and> (\<exists>before after.
         output_text demo_result
           = before @ nl @ lit ''**** Directory: '' @ lit ''sub/deep'' @ after)"
proof -
  have v: "List.map_filter visited_directory (visits sample_env demo_options [] demo_tree)
             = [lit ''sub'', lit ''sub/deep'']"
    by code_simp
  from directory_markers_emitted[OF demo_run] v
  show ?thesis using demo_run by simp
qed

subsection \<open>Ignored directories, traversal order and listing failures\<close>

lemma file_loop_append:
  "file_loop e opts dir (xs @ ys) s = file_loop e opts dir ys (file_loop e opts dir xs s)"
  by (induction e opts dir xs s rule: file_loop.induct) simp_all

lemma dir_loop_append:
  "dir_loop e opts dir (xs @ ys) s =
     (case dir_loop e opts dir xs s of Inl err \<Rightarrow> Inl err | Inr s' \<Rightarrow> dir_loop e opts dir ys s')"
proof (induction xs arbitrary: s)
  case Nil
  show ?case by simp
next
  case (Cons x xs)
  show ?case
    by (cases x) (simp_all add: Cons.IH split: sum.split)
qed

text \<open>
  C4 (amended). A directory entry whose own relative path an ignore pattern matches is not
  descended into: at any depth, the result of processing the enclosing directory (text, counters,
  failure) and the visits are those of the listing without that entry, whatever the
  directory holds and whether or not it can be listed.
\<close>

theorem ignored_directory_pruned:
  assumes "ignored e opts (relativePath e dir name)"
  shows "processDirectory e opts dir (Some (before @ Directory name listing # after)) s
           = processDirectory e opts dir (Some (before @ after)) s
         \<and> visits e opts dir (Some (before @ Directory name listing # after))
           = visits e opts dir (Some (before @ after))"
proof -
  have f: "file_loop e opts dir (before @ Directory name listing # after) s
             = file_loop e opts dir (before @ after) s"
    by (simp add: file_loop_append)
  have d: "dir_loop e opts dir (before @ Directory name listing # after) s'
             = dir_loop e opts dir (before @ after) s'" for s'
    using assms by (simp add: dir_loop_append split: sum.split)
  have fi: "files_in e dir (xs @ ys) = files_in e dir xs @ files_in e dir ys" for xs ys
    by (induction e dir xs rule: files_in.induct) simp_all
  have vd: "visits_dirs e opts dir (xs @ ys) = visits_dirs e opts dir xs @ visits_dirs e opts dir ys"
    for xs ys
  proof (induction xs)
    case Nil
    show ?case by simp
  next
    case (Cons x xs)
    then show ?case by (cases x) simp_all
  qed
  have v: "visits e opts dir (Some (before @ Directory name listing # after))
             = visits e opts dir (Some (before @ after))"
    using assms by (simp add: fi vd)
  show ?thesis using f d v by simp
qed

lemma scenario_run:
  "processFiles sample_env scenario_options
     (Some (scenario_before @ Directory (lit ''sub'') scenario_sub # [])) = Inr scenario_result"
  by code_simp

theorem ignored_directory_pruned_counterexample:
  "\<not> ignored sample_env globstar_options (relativePath sample_env [] (lit ''sub''))
   \<and> ignored sample_env globstar_options
        (relativePath sample_env (lit ''sub'') (lit ''c.txt''))
   \<and> processFiles sample_env globstar_options
        (Some (scenario_before @ Directory (lit ''sub'') scenario_sub # [])) = Inr globstar_result
   \<and> processedFiles globstar_result = 1
   \<and> skippedFiles globstar_result = 2
   \<and> directory_markers (emitted globstar_result) = [lit ''sub'']
   \<and> visits sample_env globstar_options []
        (Some (scenario_before @ Directory (lit ''sub'') scenario_sub # []))
       = [VFile (lit ''a.txt'') (Some 5) (Some False) (Some (lit ''hello'')),
          VFile (lit ''b.bin'') (Some 4) (Some True) (Some [0, 1, 2, 3]),
          VDir (lit ''sub''),
          VFile (lit ''sub/c.txt'') (Some 5) (Some False) (Some (lit ''world''))]"
  by code_simp

theorem ignored_directory_pruned_witness:
  "ignored sample_env scenario_options (relativePath sample_env [] (lit ''sub''))
   \<and> processDirectory sample_env scenario_options []
        (Some (scenario_before @ Directory (lit ''sub'') scenario_sub # [])) init_state
       = processDirectory sample_env scenario_options [] (Some (scenario_before @ [])) init_state
   \<and> processFiles sample_env scenario_options
        (Some (scenario_before @ Directory (lit ''sub'') scenario_sub # [])) = Inr scenario_result
   \<and> processedFiles scenario_result = 1 \<and> skippedFiles scenario_result = 1"
proof -
  have h: "ignored sample_env scenario_options (relativePath sample_env [] (lit ''sub''))"
    by code_simp
  have c: "processedFiles scenario_result = 1 \<and> skippedFiles scenario_result = 1"
    by (simp add: scenario_result_def)
  show ?thesis
    using h c scenario_run
      ignored_directory_pruned[OF h, of scenario_before scenario_sub "[]" init_state]
    by simp
qed

lemma file_loop_files_only:
  "file_loop e opts dir (filter is_file_entry entries) s = file_loop e opts dir entries s"
  by (induction e opts dir entries s rule: file_loop.induct) simp_all

lemma dir_loop_kept_only:
  "dir_loop e opts dir (filter (kept_directory e opts dir) entries) s
     = dir_loop e opts dir entries s"
proof (induction entries arbitrary: s)
  case Nil
  show ?case by simp
next
  case (Cons x xs)
  show ?case
    by (cases x) (simp_all add: Cons.IH split: sum.split)
qed

lemma file_loop_directory_markers:
  "directory_markers (emitted (file_loop e opts dir entries s)) = directory_markers (emitted s)"
proof -
  have "List.map_filter visited_directory (files_in e dir entries) = []"
    by (induction e dir entries rule: files_in.induct) (simp_all add: map_filter_simps)
  then show ?thesis
    by (simp add: file_loop_fold fold_directory_markers)
qed

lemma step_emits:
  "output_text (step e opts v s) = output_text s @ concat (map (render e) (emits e opts v s))"
  "emitted (step e opts v s) = emitted s @ emits e opts v s"
proof -
  have "output_text (step e opts v s) = output_text s @ concat (map (render e) (emits e opts v s))
        \<and> emitted (step e opts v s) = emitted s @ emits e opts v s"
  proof (cases rule: step_cases[of e opts v s])
    case skipped
    then show ?thesis by (cases v) (simp_all add: skip_def del: step.simps)
  next
    case (directory rel)
    then show ?thesis by (simp add: emit_def)
  next
    case (taken r sz c)
    then show ?thesis by (cases v) (simp_all add: emit_def del: step.simps)
  next
    case (first_omitted r sz c)
    then show ?thesis by (cases v) (simp_all add: emit_def del: step.simps)
  next
    case (later_omitted r sz c)
    then show ?thesis by (cases v) (simp_all del: step.simps)
  qed
  then show "output_text (step e opts v s)
               = output_text s @ concat (map (render e) (emits e opts v s))"
    and "emitted (step e opts v s) = emitted s @ emits e opts v s"
    by simp_all
qed

lemma fold_trace:
  "output_text (fold (step e opts) vs s)
     = output_text s @ concat (map (render e) (trace e opts vs s))"
  "emitted (fold (step e opts) vs s) = emitted s @ trace e opts vs s"
proof (induction vs arbitrary: s)
  case Nil
  {
    case 1 show ?case by simp
  next
    case 2 show ?case by simp
  }
next
  case (Cons v vs)
  {
    case 1
    show ?case by (simp add: Cons.IH(1) step_emits(1) del: step.simps)
  next
    case 2
    show ?case by (simp add: Cons.IH(2) step_emits(2) del: step.simps)
  }
qed

lemma fragments_append: "fragments (xs @ ys) = fragments xs @ fragments ys"
  by (simp add: fragments_def map_filter_def)

lemma directory_markers_append:
  "directory_markers (xs @ ys) = directory_markers xs @ directory_markers ys"
  by (simp add: directory_markers_def map_filter_def)

lemma trace_fragments:
  "fragments (trace e opts vs s) = allowed opts s (eligible_files e opts vs)"
  using fold_fragments[of e opts vs s] by (simp add: fold_trace(2) fragments_append)

lemma trace_directory_markers:
  "directory_markers (trace e opts vs s) = List.map_filter visited_directory vs"
  using fold_directory_markers[of e opts vs s]
  by (simp add: fold_trace(2) directory_markers_append)

lemma files_in_no_directory:
  "List.map_filter visited_directory (files_in e dir entries) = []"
  by (induction e dir entries rule: files_in.induct) (simp_all add: map_filter_simps)

text \<open>
  C8. Processing a directory is the file loop over its file entries followed by the
  directory loop over its directory entries that no ignore pattern matches, so ignored
  directories and the interleaving of files and directories in the listing make no
  difference. The file loop appends to the text the fragments of the eligible files of the
  directory in listing order (as far as the file limit allows) and no directory marker.
  When every directory reached can be listed, the text after the walk is the text before
  it, then what the file loop appended, then what the directory loop appended: for each
  kept directory in listing order its marker followed by what its own walk appends.
\<close>

theorem files_before_subdirectories:
  "processDirectory e opts dir (Some entries) s
     = dir_loop e opts dir (filter (kept_directory e opts dir) entries)
         (file_loop e opts dir (filter is_file_entry entries) s)
   \<and> output_text (file_loop e opts dir entries s)
       = output_text s @ concat (map (render e) (trace e opts (files_in e dir entries) s))
   \<and> fragments (trace e opts (files_in e dir entries) s)
       = allowed opts s (eligible_files e opts (files_in e dir entries))
   \<and> directory_markers (trace e opts (files_in e dir entries) s) = []
   \<and> (listable e opts dir (Some entries) \<longrightarrow>
        processDirectory e opts dir (Some entries) s
          = Inr (fold (step e opts) (visits_dirs e opts dir entries)
                  (file_loop e opts dir entries s))
        \<and> output_text (fold (step e opts) (visits_dirs e opts dir entries)
                          (file_loop e opts dir entries s))
            = output_text s
              @ concat (map (render e) (trace e opts (files_in e dir entries) s))
              @ concat (map (render e)
                  (trace e opts (visits_dirs e opts dir entries)
                     (file_loop e opts dir entries s)))
        \<and> fragments (trace e opts (visits_dirs e opts dir entries)
                         (file_loop e opts dir entries s))
            = allowed opts (file_loop e opts dir entries s)
                (eligible_files e opts (visits_dirs e opts dir entries))
        \<and> directory_markers (trace e opts (visits_dirs e opts dir entries)
                                 (file_loop e opts dir entries s))
            = List.map_filter visited_directory (visits_dirs e opts dir entries))"
proof (intro conjI impI)
  show "processDirectory e opts dir (Some entries) s
          = dir_loop e opts dir (filter (kept_directory e opts dir) entries)
              (file_loop e opts dir (filter is_file_entry entries) s)"
    by (simp only: processDirectory.simps file_loop_files_only dir_loop_kept_only)
  show f: "output_text (file_loop e opts dir entries s)
          = output_text s @ concat (map (render e) (trace e opts (files_in e dir entries) s))"
    by (simp only: file_loop_fold fold_trace(1))
  show "fragments (trace e opts (files_in e dir entries) s)
          = allowed opts s (eligible_files e opts (files_in e dir entries))"
    by (rule trace_fragments)
  show "directory_markers (trace e opts (files_in e dir entries) s) = []"
    by (simp only: trace_directory_markers files_in_no_directory)
  show "fragments (trace e opts (visits_dirs e opts dir entries)
                     (file_loop e opts dir entries s))
          = allowed opts (file_loop e opts dir entries s)
              (eligible_files e opts (visits_dirs e opts dir entries))"
    by (rule trace_fragments)
  show "directory_markers (trace e opts (visits_dirs e opts dir entries)
                             (file_loop e opts dir entries s))
          = List.map_filter visited_directory (visits_dirs e opts dir entries)"
    by (rule trace_directory_markers)
  show "output_text (fold (step e opts) (visits_dirs e opts dir entries)
                       (file_loop e opts dir entries s))
          = output_text s
            @ concat (map (render e) (trace e opts (files_in e dir entries) s))
            @ concat (map (render e)
                (trace e opts (visits_dirs e opts dir entries)
                   (file_loop e opts dir entries s)))"
    by (simp only: fold_trace(1) f append_assoc)
  assume "listable e opts dir (Some entries)"
  then have "listable_dirs e opts dir entries"
    by simp
  from walk_flat(2)[OF this]
  show "processDirectory e opts dir (Some entries) s
          = Inr (fold (step e opts) (visits_dirs e opts dir entries)
                  (file_loop e opts dir entries s))"
    by (simp only: processDirectory.simps)
qed


theorem files_before_subdirectories_witness:
  "listable sample_env demo_options [] (Some demo_entries)
   \<and> concat (map (render sample_env)
         (trace sample_env demo_options (files_in sample_env [] demo_entries) init_state))
       = lit ''\<newline>**** File: a.txt, size: 5 B\<newline>\<newline>hello\<newline>''
         @ lit ''\<newline>**** File: z.txt, size: 2 B\<newline>\<newline>zz\<newline>''
   \<and> concat (map (render sample_env)
         (trace sample_env demo_options (visits_dirs sample_env demo_options [] demo_entries)
            (file_loop sample_env demo_options [] demo_entries init_state)))
       = lit ''\<newline>**** Directory: sub''
         @ lit ''\<newline>**** File: sub/c.txt, size: 5 B\<newline>''
         @ lit ''This file and all following files were omitted due to max-files limit.\<newline>''
         @ lit ''\<newline>**** Directory: sub/deep''
   \<and> processDirectory sample_env demo_options [] (Some demo_entries) init_state
       = Inr (fold (step sample_env demo_options)
                (visits_dirs sample_env demo_options [] demo_entries)
                (file_loop sample_env demo_options [] demo_entries init_state))
   \<and> output_text (fold (step sample_env demo_options)
                     (visits_dirs sample_env demo_options [] demo_entries)
                     (file_loop sample_env demo_options [] demo_entries init_state))
       = (lit ''\<newline>**** File: a.txt, size: 5 B\<newline>\<newline>hello\<newline>''
          @ lit ''\<newline>**** File: z.txt, size: 2 B\<newline>\<newline>zz\<newline>'')
         @ (lit ''\<newline>**** Directory: sub''
            @ lit ''\<newline>**** File: sub/c.txt, size: 5 B\<newline>''
            @ lit ''This file and all following files were omitted due to max-files limit.\<newline>''
            @ lit ''\<newline>**** Directory: sub/deep'')"
proof -
  let ?files = "trace sample_env demo_options (files_in sample_env [] demo_entries) init_state"
  let ?dirs = "trace sample_env demo_options (visits_dirs sample_env demo_options [] demo_entries)
                 (file_loop sample_env demo_options [] demo_entries init_state)"
  let ?end = "fold (step sample_env demo_options)
                (visits_dirs sample_env demo_options [] demo_entries)
                (file_loop sample_env demo_options [] demo_entries init_state)"
  have l: "listable sample_env demo_options [] (Some demo_entries)"
    by code_simp
  have f: "concat (map (render sample_env) ?files)
             = lit ''\<newline>**** File: a.txt, size: 5 B\<newline>\<newline>hello\<newline>''
               @ lit ''\<newline>**** File: z.txt, size: 2 B\<newline>\<newline>zz\<newline>''"
    by code_simp
  have d: "concat (map (render sample_env) ?dirs)
             = lit ''\<newline>**** Directory: sub''
               @ lit ''\<newline>**** File: sub/c.txt, size: 5 B\<newline>''
               @ lit ''This file and all following files were omitted due to max-files limit.\<newline>''
               @ lit ''\<newline>**** Directory: sub/deep''"
    by code_simp
  have i: "output_text init_state = []"
    by (simp add: init_state_def)
  note t = files_before_subdirectories[of sample_env demo_options "[]" demo_entries init_state]
  have r: "processDirectory sample_env demo_options [] (Some demo_entries) init_state = Inr ?end"
    using l t by blast
  have "output_text ?end
          = output_text init_state @ concat (map (render sample_env) ?files)
            @ concat (map (render sample_env) ?dirs)"
    using l t by blast
  then have o: "output_text ?end
          = (lit ''\<newline>**** File: a.txt, size: 5 B\<newline>\<newline>hello\<newline>''
             @ lit ''\<newline>**** File: z.txt, size: 2 B\<newline>\<newline>zz\<newline>'')
            @ (lit ''\<newline>**** Directory: sub''
               @ lit ''\<newline>**** File: sub/c.txt, size: 5 B\<newline>''
               @ lit ''This file and all following files were omitted due to max-files limit.\<newline>''
               @ lit ''\<newline>**** Directory: sub/deep'')"
    by (simp only: i f d append_Nil)
  show ?thesis
    by (intro conjI) (rule l, rule f, rule d, rule r, rule o)
qed

text \<open>
  C6 (amended). The run returns a result exactly when every directory the walk reaches
  (the root and every directory no ignore pattern matches) can be listed; when one of them
  cannot, root or not, the whole run fails with the listing error.
\<close>

theorem listing_failure_fails_run:
  "(listable e opts [] tree \<longrightarrow> (\<exists>st. processFiles e opts tree = Inr st))
   \<and> (\<not> listable e opts [] tree \<longrightarrow> (\<exists>err. processFiles e opts tree = Inl err))"
proof (intro conjI impI)
  assume "listable e opts [] tree"
  from walk_flat(1)[OF this, of init_state]
  show "\<exists>st. processFiles e opts tree = Inr st"
    by (simp add: processFiles_def)
next
  assume "\<not> listable e opts [] tree"
  from walk_fails(1)[OF this, of init_state]
  show "\<exists>err. processFiles e opts tree = Inl err"
    by (auto simp: processFiles_def)
qed

theorem listing_failure_counterexample:
  "processFiles sample_env demo_options broken_tree = Inl (DirectoryListFailure (lit ''locked''))"
  by code_simp

theorem listing_failure_fails_run_witness:
  "listable sample_env demo_options [] demo_tree
   \<and> (\<exists>st. processFiles sample_env demo_options demo_tree = Inr st)
   \<and> \<not> listable sample_env demo_options [] broken_tree
   \<and> (\<exists>err. processFiles sample_env demo_options broken_tree = Inl err)"
proof -
  have a: "listable sample_env demo_options [] demo_tree"
    by code_simp
  have b: "\<not> listable sample_env demo_options [] broken_tree"
    by code_simp
  show ?thesis
    using a b listing_failure_fails_run[of sample_env demo_options demo_tree]
      listing_failure_fails_run[of sample_env demo_options broken_tree]
    by blast
qed

subsection \<open>Classification of one file\<close>

text \<open>
  C5 (amended). With \<open>includeAll\<close> off, a file entry whose size is known is tested in this
  order: the size test when truncation is off, then the binary probe, then the ignore
  patterns. An oversized file is classified as large whatever the probe and the patterns
  say; otherwise a binary file is classified as binary whatever the patterns say; otherwise
  an ignored text file is classified as ignored. Each case adds one to the skipped
  counter and nothing else.
\<close>

theorem check_order:
  assumes "\<not> includeAll opts"
  shows "(of_nat sz > thresholdBytes opts \<and> \<not> truncate_opt opts \<longrightarrow>
            processFile e opts rel (Some sz) probe content s = (skip_large, skip s))
         \<and> (\<not> (of_nat sz > thresholdBytes opts \<and> \<not> truncate_opt opts) \<and> probe = Some True \<longrightarrow>
            processFile e opts rel (Some sz) probe content s = (skip_binary, skip s))
         \<and> (\<not> (of_nat sz > thresholdBytes opts \<and> \<not> truncate_opt opts) \<and> probe = Some False
              \<and> ignored e opts rel \<longrightarrow>
            processFile e opts rel (Some sz) probe content s = (skip_ignored, skip s))"
  using assms by (simp add: processFile_def)

theorem check_order_counterexample:
  "of_nat 4 > thresholdBytes strict_options
   \<and> fst (processFile sample_env strict_options (lit ''b.bin'') (Some 4) (Some True)
          (Some [0, 1, 2, 3]) init_state) = skip_large
   \<and> fst (processFile sample_env strict_options (lit ''b.bin'') (Some 4) (Some True)
          (Some [0, 1, 2, 3]) init_state) \<noteq> skip_binary
   \<and> ignored sample_env strict_options (lit ''node_modules'')
   \<and> fst (processFile sample_env strict_options (lit ''node_modules'') (Some 2) (Some True)
          (Some [0, 1]) init_state) = skip_binary"
  by code_simp

theorem check_order_witness:
  "\<not> includeAll strict_options
   \<and> processFile sample_env strict_options (lit ''b.bin'') (Some 4) (Some True)
        (Some [0, 1, 2, 3]) init_state = (skip_large, skip init_state)
   \<and> processFile sample_env strict_options (lit ''c.bin'') (Some 2) (Some True)
        (Some [0, 1]) init_state = (skip_binary, skip init_state)
   \<and> processFile sample_env strict_options (lit ''node_modules'') (Some 2) (Some False)
        (Some (lit ''hi'')) init_state = (skip_ignored, skip init_state)"
proof -
  have h: "\<not> includeAll strict_options"
    by (simp add: strict_options_def)
  have a: "of_nat 4 > thresholdBytes strict_options \<and> \<not> truncate_opt strict_options"
    by (simp add: strict_options_def thresholdBytes_def)
  have b: "\<not> (of_nat 2 > thresholdBytes strict_options \<and> \<not> truncate_opt strict_options)"
    by (simp add: strict_options_def thresholdBytes_def)
  have i: "ignored sample_env strict_options (lit ''node_modules'')"
    by code_simp
  show ?thesis
    using h a b i
      check_order[OF h, where sz = 4 and e = sample_env and rel = "lit ''b.bin''"
        and probe = "Some True" and content = "Some [0, 1, 2, 3]" and s = init_state]
      check_order[OF h, where sz = 2 and e = sample_env and rel = "lit ''c.bin''"
        and probe = "Some True" and content = "Some [0, 1]" and s = init_state]
      check_order[OF h, where sz = 2 and e = sample_env and rel = "lit ''node_modules''"
        and probe = "Some False" and content = "Some (lit ''hi'')" and s = init_state]
    by simp
qed

text \<open>
  C3 (the code at a failing input). A file of three characters of three bytes each, nine
  bytes by \<open>stat\<close>, with a threshold of three bytes: with truncation off it is skipped as
  large; with truncation on it is classified as truncated, and the content emitted is the
  whole text, nine bytes, followed by the truncation marker, where the claim has three
  bytes: the threshold in bytes is used as an index into the decoded string.
\<close>

theorem truncation_counts_code_units:
  "thresholdBytes truncating_options = 3
   \<and> processFile sample_env strict_options (lit ''e.txt'') (Some 9) (Some False)
        (Some [8364, 8364, 8364]) init_state = (skip_large, skip init_state)
   \<and> slice0 [8364, 8364, 8364] (thresholdBytes truncating_options) = [8364, 8364, 8364]
   \<and> processFile sample_env truncating_options (lit ''e.txt'') (Some 9) (Some False)
        (Some [8364, 8364, 8364]) init_state
      = (include_truncated,
         \<lparr>output_text =
            lit ''\<newline>**** File: e.txt, size: 9 B\<newline>\<newline>''
            @ [8364, 8364, 8364]
            @ lit ''\<newline>\<newline>[Truncated: File size exceeds 0.00000286102294921875 MB]\<newline>''
            @ lit ''\<newline>'',
          processedFiles = 1, skippedFiles = 0, omittedFiles = 0,
          emitted =
            [Fragment (lit ''e.txt'') 9
               ([8364, 8364, 8364]
                @ lit ''\<newline>\<newline>[Truncated: File size exceeds 0.00000286102294921875 MB]\<newline>'')]\<rparr>)"
  by code_simp

subsection \<open>Reading the text back\<close>

lemma split_lines_nonempty: "split_lines xs \<noteq> []"
  by (induction xs) (auto split: list.split)

lemma split_lines_append:
  "split_lines ys = [] # R \<Longrightarrow> split_lines (xs @ ys) = split_lines xs @ R"
proof (induction xs)
  case Nil
  then show ?case by simp
next
  case (Cons c cs)
  then show ?case
    using split_lines_nonempty[of cs] by (cases "split_lines cs") auto
qed

lemma split_lines_no_newline: "10 \<notin> set xs \<Longrightarrow> split_lines xs = [xs]"
  by (induction xs) auto

lemma split_lines_nl: "split_lines (nl @ xs) = [] # split_lines xs"
  by (simp add: nl_def)

lemma skip_lines:
  "list_all (\<lambda>line. \<not> is_header line) xs \<Longrightarrow> parse_lines (xs @ rest) = parse_lines rest"
proof (induction xs)
  case Nil
  show ?case by simp
next
  case (Cons x xs)
  then have IH: "parse_lines (xs @ rest) = parse_lines rest" and nh: "\<not> is_header x"
    by simp_all
  show ?case
  proof (cases "xs @ rest")
    case Nil
    then show ?thesis by simp
  next
    case (Cons l2 ls)
    then show ?thesis using IH nh by simp
  qed
qed

lemma split_lines_line:
  "10 \<notin> set xs \<Longrightarrow> split_lines (xs @ nl @ ys) = xs # split_lines ys"
  using split_lines_append[of "nl @ ys" "split_lines ys" xs]
  by (simp add: split_lines_nl split_lines_no_newline)

lemma split_lines_join:
  "split_lines (xs @ nl @ ys) = split_lines xs @ split_lines ys"
  using split_lines_append[of "nl @ ys" "split_lines ys" xs]
  by (simp add: split_lines_nl)

lemma file_header_line:
  "file_header e rel sz = nl @ header_line e rel sz @ nl"
  by (simp add: file_header_def header_line_def file_marker_def size_label_def comma_def lit_def)

lemma header_line_no_newline:
  "10 \<notin> set rel \<Longrightarrow> 10 \<notin> set (formatFileSize e sz) \<Longrightarrow> 10 \<notin> set (header_line e rel sz)"
  by (simp add: header_line_def file_marker_def size_label_def comma_def lit_def)

lemma is_header_header_line: "is_header (header_line e rel sz)"
  by (simp add: is_header_def header_line_def)

lemma is_header_others:
  "\<not> is_header []"
  "\<not> is_header omission_line"
  "\<not> is_header (lit ''**** Directory: '' @ rel)"
  by (simp_all add: is_header_def file_marker_def omission_line_def lit_def)

lemma parse_fields_header_line:
  assumes "comma \<notin> set (formatFileSize e sz)"
  shows "parse_fields (header_line e rel sz) = (rel, formatFileSize e sz)"
proof -
  let ?f = "formatFileSize e sz"
  have r: "rev (drop (length file_marker) (header_line e rel sz))
             = (rev ?f @ rev size_label) @ comma # rev rel"
    by (simp add: header_line_def)
  have c: "\<forall>x \<in> set (rev ?f @ rev size_label). x \<noteq> comma"
    using assms by (auto simp: size_label_def lit_def comma_def)
  have "takeWhile (\<lambda>c. c \<noteq> comma) ((rev ?f @ rev size_label) @ comma # rev rel)
          = (rev ?f @ rev size_label) @ takeWhile (\<lambda>c. c \<noteq> comma) (comma # rev rel)"
    by (rule takeWhile_append2) (use c in blast)
  then have t: "takeWhile (\<lambda>c. c \<noteq> comma) ((rev ?f @ rev size_label) @ comma # rev rel)
                  = rev ?f @ rev size_label"
    by simp
  show ?thesis
    unfolding parse_fields_def r Let_def t by simp
qed

lemma render_lines:
  assumes "clean_event e ev" "split_lines ys = [] # R"
  shows "split_lines (render e ev @ ys) = [] # (body_lines e ev @ R)"
proof (cases ev)
  case (Fragment rel sz content)
  with assms(1) have "10 \<notin> set (header_line e rel sz)"
    by (simp add: header_line_no_newline)
  then have "split_lines (render e ev @ ys)
               = [] # header_line e rel sz # [] # split_lines (content @ nl @ ys)"
    using Fragment
    by (simp add: fragment_text_def file_header_line split_lines_nl split_lines_line)
  then show ?thesis
    using Fragment assms(2) by (simp add: split_lines_join)
next
  case (CutoffMarker rel sz)
  with assms(1) have h: "10 \<notin> set (header_line e rel sz)"
    by (simp add: header_line_no_newline)
  have o: "10 \<notin> set omission_line"
    by (simp add: omission_line_def lit_def)
  have "render e ev @ ys = nl @ header_line e rel sz @ nl @ omission_line @ nl @ ys"
    using CutoffMarker by (simp add: cutoff_text_def file_header_line omission_line_def)
  then show ?thesis
    using CutoffMarker assms(2) h o
    by (simp add: split_lines_nl split_lines_line split_lines_append split_lines_no_newline)
next
  case (DirMarker rel)
  with assms(1) have "10 \<notin> set (lit ''**** Directory: '' @ rel)"
    by (simp add: lit_def)
  then have "split_lines (lit ''**** Directory: '' @ rel) = [lit ''**** Directory: '' @ rel]"
    by (rule split_lines_no_newline)
  with split_lines_append[OF assms(2), of "lit ''**** Directory: '' @ rel"]
  have "split_lines ((lit ''**** Directory: '' @ rel) @ ys)
          = [lit ''**** Directory: '' @ rel] @ R"
    by simp
  then show ?thesis
    using DirMarker by (simp add: directory_text_def split_lines_nl)
qed

lemma rendered_lines:
  assumes "list_all (clean_event e) evs" "split_lines tail = [] # R"
  shows "split_lines (concat (map (render e) evs) @ tail)
           = [] # (concat (map (body_lines e) evs) @ R)"
  using assms(1)
proof (induction evs)
  case Nil
  show ?case using assms(2) by simp
next
  case (Cons ev evs)
  then have "split_lines (concat (map (render e) evs) @ tail)
               = [] # (concat (map (body_lines e) evs) @ R)"
    and "clean_event e ev"
    by simp_all
  from render_lines[OF this(2) this(1)] show ?case by simp
qed

lemma parse_body_lines:
  assumes "clean_event e ev"
  shows "parse_lines (body_lines e ev @ rest)
           = (case fragment_of ev of None \<Rightarrow> [] | Some x \<Rightarrow> [rendered_pair e x])
             @ parse_lines rest"
proof (cases ev)
  case (Fragment rel sz content)
  with assms have c: "comma \<notin> set (formatFileSize e sz)"
    and n: "list_all (\<lambda>line. \<not> is_header line) (split_lines content @ [[]])"
    by (simp_all add: is_header_others)
  have "parse_lines (body_lines e ev @ rest)
          = parse_fields (header_line e rel sz)
            # parse_lines ((split_lines content @ [[]]) @ rest)"
    using Fragment by (simp add: is_header_header_line)
  then show ?thesis
    using Fragment by (simp only: skip_lines[OF n] parse_fields_header_line[OF c]) simp
next
  case (CutoffMarker rel sz)
  have o: "omission_line \<noteq> []"
    by (simp add: omission_line_def lit_def)
  have "parse_lines (body_lines e ev @ rest) = parse_lines ([[]] @ rest)"
    using CutoffMarker o by (simp add: is_header_others)
  also have "\<dots> = parse_lines rest"
    by (rule skip_lines) (simp add: is_header_others)
  finally show ?thesis using CutoffMarker by simp
next
  case (DirMarker rel)
  have "parse_lines ([lit ''**** Directory: '' @ rel] @ rest) = parse_lines rest"
    by (rule skip_lines) (simp add: is_header_others)
  then show ?thesis using DirMarker by simp
qed

lemma parse_all_body_lines:
  assumes "list_all (clean_event e) evs"
  shows "parse_lines (concat (map (body_lines e) evs) @ rest)
           = map (rendered_pair e) (fragments evs) @ parse_lines rest"
  using assms
proof (induction evs)
  case Nil
  show ?case by (simp add: fragments_def map_filter_simps)
next
  case (Cons ev evs)
  then have c: "clean_event e ev"
    and IH: "parse_lines (concat (map (body_lines e) evs) @ rest)
               = map (rendered_pair e) (fragments evs) @ parse_lines rest"
    by simp_all
  have "parse_lines (concat (map (body_lines e) (ev # evs)) @ rest)
          = parse_lines (body_lines e ev @ (concat (map (body_lines e) evs) @ rest))"
    by simp
  also have "\<dots> = (case fragment_of ev of None \<Rightarrow> [] | Some x \<Rightarrow> [rendered_pair e x])
                    @ map (rendered_pair e) (fragments evs) @ parse_lines rest"
    by (simp only: parse_body_lines[OF c] IH)
  finally show ?case
    by (simp add: fragments_def map_filter_simps split: option.split)
qed

lemma summary_lines:
  assumes "10 \<notin> set (numberToString e (of_nat n))"
  shows "\<exists>R. split_lines (summary_text e n) = [] # R \<and> parse_lines R = []"
proof -
  define t where "t = lit ''Total '' @ numberToString e (of_nat n)
                      @ lit '' files were omitted due to the maxFiles limit''"
  have n: "10 \<notin> set t"
    using assms by (simp add: t_def lit_def)
  have h: "\<not> is_header t"
    by (simp add: t_def is_header_def file_marker_def lit_def)
  have l: "split_lines (t @ nl) = [t, []]"
    using split_lines_line[OF n, of "[]"] by simp
  have "summary_text e n = nl @ nl @ (t @ nl)"
    by (simp add: summary_text_def t_def)
  then have "split_lines (summary_text e n) = [] # [[], t, []]"
    by (simp only: split_lines_nl l)
  moreover have "parse_lines [[], t, []] = []"
    using h by (simp add: is_header_others)
  ultimately show ?thesis by blast
qed

lemma parse_rendered:
  assumes "list_all (clean_event e) evs" "split_lines tail = [] # R" "parse_lines R = []"
  shows "parse_aggregate (concat (map (render e) evs) @ tail)
           = map (rendered_pair e) (fragments evs)"
proof -
  have "parse_aggregate (concat (map (render e) evs) @ tail)
          = parse_lines ([[]] @ (concat (map (body_lines e) evs) @ R))"
    by (simp add: parse_aggregate_def rendered_lines[OF assms(1,2)])
  also have "\<dots> = parse_lines (concat (map (body_lines e) evs) @ R)"
    by (rule skip_lines) (simp add: is_header_others)
  also have "\<dots> = map (rendered_pair e) (fragments evs)"
    by (simp add: parse_all_body_lines[OF assms(1)] assms(3))
  finally show ?thesis .
qed

text \<open>
  C7 (amended). When a run returns, no emitted path or size text holds a line break, no
  size text holds a comma, no line of an emitted content starts with the file marker, and
  the text of the omitted count holds no line break, then reading the aggregated text by
  its markers gives back, in order, the path and the human-readable size of every rendered
  fragment.
\<close>

theorem delimiter_round_trip:
  assumes "processFiles e opts tree = Inr st"
    and "list_all (clean_event e) (emitted st)"
    and "10 \<notin> set (numberToString e (of_nat (omittedFiles st)))"
  shows "parse_aggregate (output_text st) = map (rendered_pair e) (fragments (emitted st))"
proof (cases "omittedFiles st > 0")
  case True
  from summary_lines[OF assms(3)] obtain R
    where "split_lines (summary_text e (omittedFiles st)) = [] # R" "parse_lines R = []"
    by blast
  from parse_rendered[OF assms(2) this] show ?thesis
    using True by (simp add: run_output[OF assms(1)])
next
  case False
  have "split_lines [] = [] # []" "parse_lines [] = []"
    by simp_all
  from parse_rendered[OF assms(2) this] show ?thesis
    using False by (simp add: run_output[OF assms(1)])
qed

theorem delimiter_round_trip_counterexample:
  "aggregated (processFiles sample_env scenario_options (Some long_name_entries))
     = aggregated (processFiles sample_env scenario_options (Some two_file_entries))
   \<and> aggregated (processFiles sample_env scenario_options (Some long_name_entries)) \<noteq> None
   \<and> rendered_pairs (processFiles sample_env scenario_options (Some long_name_entries))
       = Some [(lit ''a, size: 1 B\<newline>\<newline>x\<newline>\<newline>**** File: b'', 1)]
   \<and> rendered_pairs (processFiles sample_env scenario_options (Some two_file_entries))
       = Some [(lit ''a'', 1), (lit ''b'', 1)]
   \<and> rendered_pairs (processFiles sample_env scenario_options (Some quoting_entries))
       = Some [(lit ''a.txt'', 32)]
   \<and> map_option parse_aggregate
         (aggregated (processFiles sample_env scenario_options (Some quoting_entries)))
       = Some [(lit ''a.txt'', lit ''32 B''), (lit ''b.txt'', lit ''1 B'')]"
  by code_simp

theorem delimiter_round_trip_witness:
  "processFiles sample_env demo_options demo_tree = Inr demo_result
   \<and> list_all (clean_event sample_env) (emitted demo_result)
   \<and> 10 \<notin> set (numberToString sample_env (of_nat (omittedFiles demo_result)))
   \<and> parse_aggregate (output_text demo_result)
       = [(lit ''a.txt'', lit ''5 B''), (lit ''z.txt'', lit ''2 B'')]"
proof -
  have c: "list_all (clean_event sample_env) (emitted demo_result)"
    by code_simp
  have n: "10 \<notin> set (numberToString sample_env (of_nat (omittedFiles demo_result)))"
    by code_simp
  have m: "map (rendered_pair sample_env) (fragments (emitted demo_result))
             = [(lit ''a.txt'', lit ''5 B''), (lit ''z.txt'', lit ''2 B'')]"
    by code_simp
  show ?thesis
    using c n m demo_run delimiter_round_trip[OF demo_run c n] by simp
qed

end
